theory Spec2Isabelle
  imports Main
begin

section \<open>The demo showcase: tabs and the selected tab\<close>

text \<open>
  The component \<open>Demos\<close> of the landing page holds a list \<open>tabs\<close> of entries
  \<open>{title, code, demo}\<close> and a number \<open>current_selection\<close>. An entry's \<open>code\<close> is an
  HTML snippet or \<open>false\<close> (here \<open>None\<close>).
\<close>

record tab =
  title :: string
  code :: "string option"
  demo :: string

record demos =
  tabs :: "tab list"
  current_selection :: int

text \<open>
  The state \<open>Demos\<close> starts from: the five entries of the source and
  \<open>current_selection = 0\<close>. The three highlighted snippets \<open>sketch\<close>, \<open>q_a\<close> and
  \<open>img\<close> are long HTML constants of the source; they are parameters here.
\<close>

definition Demos :: "string \<Rightarrow> string \<Rightarrow> string \<Rightarrow> demos" where
  "Demos sketch q_a img =
     \<lparr>tabs =
        [\<lparr>title = ''Sketch Recognition'', code = Some sketch, demo = ''gradio/pictionary''\<rparr>,
         \<lparr>title = ''Question Answering'', code = Some q_a,
          demo = ''gradio/question-answering''\<rparr>,
         \<lparr>title = ''Image Segmentation'', code = Some img,
          demo = ''gradio/Echocardiogram-Segmentation''\<rparr>,
         \<lparr>title = ''Time Series Forecasting'', code = None,
          demo = ''gradio/timeseries-forecasting-with-prophet''\<rparr>,
         \<lparr>title = ''XGBoost with Explainability'', code = None,
          demo = ''gradio/xgboost-income-prediction-with-explainability''\<rparr>],
      current_selection = 0\<rparr>"

text \<open>
  Rendering gives the panel of entry \<open>i\<close> the class \<open>hidden\<close> by
  \<open>i !== current_selection ? "hidden" : ""\<close>; \<open>hidden_flags\<close> is that test for the
  entries in order, as \<open>each(tabs, ...)\<close> walks them.
\<close>

definition hidden :: "demos \<Rightarrow> int \<Rightarrow> bool" where
  "hidden st i \<longleftrightarrow> i \<noteq> current_selection st"

definition hidden_flags :: "demos \<Rightarrow> bool list" where
  "hidden_flags st = map (\<lambda>i. hidden st (int i)) [0..<length (tabs st)]"

definition ActiveIndex :: "demos \<Rightarrow> int" where
  "ActiveIndex st = current_selection st"

definition IsActive :: "demos \<Rightarrow> int \<Rightarrow> bool" where
  "IsActive st j \<longleftrightarrow> \<not> hidden st j"

datatype error = OutOfRange | TypeError

text \<open>
  Modelled from the spec: the operation \<open>Select\<close>. The server-side rendering output
  has no handler that assigns \<open>current_selection\<close>; the specification's contract is
  "fails with an OutOfRange condition if index is not within [0, length). On success,
  updates the active index". \<open>after_Select\<close> is the state the component holds after
  the call: a rejected call mutates nothing.
\<close>

definition Select :: "int \<Rightarrow> demos \<Rightarrow> error + demos" where
  "Select index st =
     (if 0 \<le> index \<and> index < int (length (tabs st))
      then Inr (st\<lparr>current_selection := index\<rparr>)
      else Inl OutOfRange)"

definition after_Select :: "int \<Rightarrow> demos \<Rightarrow> demos" where
  "after_Select index st = (case Select index st of Inl e \<Rightarrow> st | Inr st' \<Rightarrow> st')"

fun selections :: "int list \<Rightarrow> demos \<Rightarrow> demos" where
  "selections [] st = st"
| "selections (k # ks) st = selections ks (after_Select k st)"


section \<open>The breakpoint store\<close>

text \<open>
  A JavaScript object whose keys are strings is a list of key-value pairs in insertion
  order, without repeated keys. \<open>assign\<close> is \<open>obj[key] = v\<close>, and the copy
  \<open>{...obj, [key]: v}\<close>: the value of a key the object has is replaced where it
  stands, a new key is added at the end.
\<close>

fun assign :: "(string \<times> 'v) list \<Rightarrow> string \<Rightarrow> 'v \<Rightarrow> (string \<times> 'v) list" where
  "assign [] key v = [(key, v)]"
| "assign ((k, x) # kvs) key v = (if k = key then (k, v) # kvs else (k, x) # assign kvs key v)"

definition sizes :: "(string \<times> string) list" where
  "sizes =
     [(''sm'', ''(min-width: 640px)''),
      (''md'', ''(min-width: 768px)''),
      (''lg'', ''(min-width: 1024px)''),
      (''xl'', ''(min-width: 1280px)''),
      (''2xl'', ''(min-width: 1536px)'')]"

text \<open>The constant \<open>_default\<close> of the source.\<close>

definition default_state :: "(string \<times> bool) list" where
  "default_state =
     [(''sm'', False), (''md'', False), (''lg'', False), (''xl'', False), (''2xl'', False)]"

text \<open>
  Modelled from the spec: \<open>writable\<close>, imported from \<open>chunks/index2.js\<close>, which is not
  among the sources. The specification has a subscriber list ("every subscription added
  must be removable; no subscriber is notified after it unsubscribes") and a
  subscription that "registers a callback to be invoked with the full current-state
  mapping" on every change and "returns a handle whose invocation guarantees no further
  calls to that callback". A subscription is named by the number of its handle;
  \<open>calls\<close> lists the callback invocations, oldest first, each with the snapshot passed.
  Whether \<open>subscribe\<close> itself calls the new callback once with the current value is not
  said there: it is the parameter \<open>eager\<close>, and the properties of the store proved
  below hold for both of its values.
\<close>

record 'a writable_store =
  current :: 'a
  subscribers :: "nat list"
  issued :: nat
  calls :: "(nat \<times> 'a) list"

definition writable :: "'a \<Rightarrow> 'a writable_store" where
  "writable v = \<lparr>current = v, subscribers = [], issued = 0, calls = []\<rparr>"

definition update :: "('a \<Rightarrow> 'a) \<Rightarrow> 'a writable_store \<Rightarrow> 'a writable_store" where
  "update f st =
     (let v = f (current st)
      in st\<lparr>current := v, calls := calls st @ map (\<lambda>h. (h, v)) (subscribers st)\<rparr>)"

definition subscribe2 :: "bool \<Rightarrow> 'a writable_store \<Rightarrow> nat \<times> 'a writable_store" where
  "subscribe2 eager st =
     (let h = issued st
      in (h, st\<lparr>subscribers := subscribers st @ [h], issued := Suc h,
                calls := calls st @ (if eager then [(h, current st)] else [])\<rparr>))"

definition unsubscribe :: "nat \<Rightarrow> 'a writable_store \<Rightarrow> 'a writable_store" where
  "unsubscribe h st = st\<lparr>subscribers := removeAll h (subscribers st)\<rparr>"

text \<open>
  The host's side. A \<open>MediaQueryList\<close> has the query it watches, whether the viewport
  matches it now, and the listeners of its \<open>change\<close> event; a listener \<open>onChange(key)\<close>
  is named by its key. Adding a listener that is registered, and removing one that is
  not, do nothing. A \<open>window\<close> says, per query, whether the viewport matches when
  \<open>matchMedia\<close> is called; \<open>typeof window === "undefined"\<close> is \<open>None\<close>.
\<close>

record mql =
  media :: string
  matches :: bool
  change_listeners :: "string list"

type_synonym window = "string \<Rightarrow> bool"

definition matchMedia :: "window \<Rightarrow> string \<Rightarrow> mql" where
  "matchMedia w q = \<lparr>media = q, matches = w q, change_listeners = []\<rparr>"

definition addEventListener :: "string \<Rightarrow> mql \<Rightarrow> mql" where
  "addEventListener l m =
     (if l \<in> set (change_listeners m) then m
      else m\<lparr>change_listeners := change_listeners m @ [l]\<rparr>)"

definition removeEventListener :: "string \<Rightarrow> mql \<Rightarrow> mql" where
  "removeEventListener l m = m\<lparr>change_listeners := removeAll l (change_listeners m)\<rparr>"

text \<open>
  What a call of \<open>media_query\<close> leaves behind: the media query lists it created (by
  address, in order of creation), the object \<open>listeners\<close> with
  \<open>listeners[key] = [mql, listener]\<close> (the address of the list and the listener's
  name), the store, and whether a callback was handed to \<open>onDestroy\<close>.
\<close>

record page =
  mqls :: "mql list"
  listeners :: "(string \<times> nat \<times> string) list"
  store :: "(string \<times> bool) list writable_store"
  on_destroy :: bool

text \<open>
  \<open>onChange(key)\<close>, run: \<open>update((s) => ({ ...s, [key]: !!listeners[key][0].matches }))\<close>.
  Reading \<open>listeners[key][0]\<close> for a key \<open>listeners\<close> does not have throws a TypeError.
\<close>

definition onChange :: "string \<Rightarrow> page \<Rightarrow> error + page" where
  "onChange key p =
     (case map_of (listeners p) key of
        None \<Rightarrow> Inl TypeError
      | Some (a, l) \<Rightarrow>
          if a < length (mqls p)
          then Inr (p\<lparr>store := update (\<lambda>s. assign s key (matches (mqls p ! a))) (store p)\<rparr>)
          else Inl TypeError)"

text \<open>The body of the loop \<open>for (const key in sizes)\<close>.\<close>

definition register :: "window \<Rightarrow> page \<Rightarrow> string \<times> string \<Rightarrow> page" where
  "register w p = (\<lambda>(key, q).
     let a = length (mqls p);
         m = addEventListener key (matchMedia w q)
     in p\<lparr>mqls := mqls p @ [m], listeners := assign (listeners p) key (a, key)\<rparr>)"

definition media_query :: "window option \<Rightarrow> page" where
  "media_query win =
     (let p = \<lparr>mqls = [], listeners = [], store = writable default_state, on_destroy = False\<rparr>
      in case win of
           None \<Rightarrow> p
         | Some w \<Rightarrow> (foldl (register w) p sizes)\<lparr>on_destroy := True\<rparr>)"

text \<open>
  The hosts \<open>media_query\<close> can be called in: one with no \<open>window\<close> at all, one whose
  \<open>window\<close> has no \<open>matchMedia\<close>, and one whose \<open>window\<close> has it and answers as the
  given \<open>window\<close> says. Only the last offers a viewport-monitoring facility, the means
  to evaluate a query and to register a change listener on it.
\<close>

datatype host = No_window | Window_without_matchMedia | Window_with_matchMedia window

fun viewport_facility :: "host \<Rightarrow> bool" where
  "viewport_facility No_window = False"
| "viewport_facility Window_without_matchMedia = False"
| "viewport_facility (Window_with_matchMedia w) = True"

text \<open>
  \<open>media_query\<close> called in a host. The only test it makes of the host is
  \<open>typeof window !== "undefined"\<close>. Where \<open>window\<close> is there without \<open>matchMedia\<close>, the
  loop is entered, \<open>sizes\<close> has a first key, and \<open>window.matchMedia(sizes[key])\<close> throws
  a TypeError out of \<open>media_query\<close>: no store is returned.
\<close>

definition media_query_in :: "host \<Rightarrow> error + page" where
  "media_query_in h =
     (case h of
        No_window \<Rightarrow> Inr (media_query None)
      | Window_without_matchMedia \<Rightarrow> Inl TypeError
      | Window_with_matchMedia w \<Rightarrow> Inr (media_query (Some w)))"

text \<open>
  The callback given to \<open>onDestroy\<close>: for every key of \<open>listeners\<close>, remove the listener
  from its media query list.
\<close>

definition release :: "page \<Rightarrow> string \<times> nat \<times> string \<Rightarrow> page" where
  "release p = (\<lambda>(key, a, l).
     if a < length (mqls p)
     then p\<lparr>mqls := (mqls p)[a := removeEventListener l (mqls p ! a)]\<rparr>
     else p)"

definition destroy_callback :: "page \<Rightarrow> page" where
  "destroy_callback p = foldl release p (listeners p)"

text \<open>
  Modelled from the spec: \<open>onDestroy\<close>, imported from \<open>chunks/index.js\<close>, which is not
  among the sources, keeps the callback for the destruction of the view.
  \<open>Teardown\<close>, which "releases every registered viewport watcher", runs the callback
  if one was registered.
\<close>

definition Teardown :: "page \<Rightarrow> page" where
  "Teardown p = (if on_destroy p then destroy_callback p else p)"

definition CurrentState :: "page \<Rightarrow> (string \<times> bool) list" where
  "CurrentState p = current (store p)"

text \<open>
  What can happen to a page: somebody subscribes to the store, the handle of a
  subscription is invoked, the host finds that the media query list at an address now
  has the given match value and dispatches \<open>change\<close> to its listeners in order, the
  view is destroyed. A \<open>change\<close> for an address no list has is no event at all.
\<close>

datatype event = Subscribe | Unsubscribe nat | Change nat bool | Destroy

text \<open>
  The page after the host has set the match value of the media query list at an
  address, before any listener runs.
\<close>

definition flipped :: "nat \<Rightarrow> bool \<Rightarrow> page \<Rightarrow> page" where
  "flipped a m p = p\<lparr>mqls := (mqls p)[a := (mqls p ! a)\<lparr>matches := m\<rparr>]\<rparr>"

fun dispatch :: "string list \<Rightarrow> page \<Rightarrow> error + page" where
  "dispatch [] p = Inr p"
| "dispatch (l # ls) p = (case onChange l p of Inl e \<Rightarrow> Inl e | Inr p' \<Rightarrow> dispatch ls p')"

fun step :: "bool \<Rightarrow> page \<Rightarrow> event \<Rightarrow> error + page" where
  "step eager p Subscribe = Inr (p\<lparr>store := snd (subscribe2 eager (store p))\<rparr>)"
| "step eager p (Unsubscribe h) = Inr (p\<lparr>store := unsubscribe h (store p)\<rparr>)"
| "step eager p (Change a m) =
     (if a < length (mqls p)
      then dispatch (change_listeners (mqls p ! a)) (flipped a m p)
      else Inr p)"
| "step eager p Destroy = Inr (Teardown p)"

fun run :: "bool \<Rightarrow> event list \<Rightarrow> page \<Rightarrow> error + page" where
  "run eager [] p = Inr p"
| "run eager (e # es) p = (case step eager p e of Inl x \<Rightarrow> Inl x | Inr p' \<Rightarrow> run eager es p')"

text \<open>
  The component \<open>Header\<close>, as far as the store goes: it subscribes with a callback that
  keeps the value, reads \<open>lg\<close> from what it kept, and invokes the handle before it
  returns its markup. The result is the handle it held and the page.
\<close>

definition Header :: "bool \<Rightarrow> page \<Rightarrow> nat \<times> page" where
  "Header eager p =
     (let (h, st) = subscribe2 eager (store p)
      in (h, p\<lparr>store := unsubscribe h st\<rparr>))"

text \<open>The snapshots one subscription's callback has been called with.\<close>

definition calls_of :: "nat \<Rightarrow> page \<Rightarrow> (string \<times> bool) list list" where
  "calls_of h p = map snd (filter (\<lambda>c. fst c = h) (calls (store p)))"


section \<open>Invariants of a page\<close>

text \<open>
  What holds of every page \<open>media_query\<close> builds and of all it becomes: the store's keys
  are those of \<open>sizes\<close>; media query lists exist only when the destroy callback was
  registered; a media query list has at most one listener, and a listener \<open>l\<close> on the
  list at address \<open>a\<close> is the one \<open>listeners\<close> holds for the key \<open>l\<close>, the list watching
  the query \<open>sizes[l]\<close>.
\<close>

definition page_ok :: "page \<Rightarrow> bool" where
  "page_ok p \<longleftrightarrow>
     map fst (current (store p)) = map fst sizes \<and>
     (on_destroy p \<or> mqls p = []) \<and>
     (\<forall>a<length (mqls p).
        length (change_listeners (mqls p ! a)) \<le> 1 \<and>
        (\<forall>l\<in>set (change_listeners (mqls p ! a)).
           map_of sizes l = Some (media (mqls p ! a)) \<and>
           map_of (listeners p) l = Some (a, l)))"

text \<open>No media query list has a listener.\<close>

definition quiet :: "page \<Rightarrow> bool" where
  "quiet p \<longleftrightarrow> (\<forall>a<length (mqls p). change_listeners (mqls p ! a) = [])"

text \<open>The handle \<open>h\<close> was issued and its subscription is gone.\<close>

definition released :: "nat \<Rightarrow> page \<Rightarrow> bool" where
  "released h p \<longleftrightarrow> h < issued (store p) \<and> h \<notin> set (subscribers (store p))"

fun is_Change :: "event \<Rightarrow> bool" where
  "is_Change (Change a m) = True"
| "is_Change e = False"


section \<open>Properties of the tab selection\<close>

lemma filter_eq_upt: "k < n \<Longrightarrow> filter (\<lambda>i. i = k) [0..<n] = [k]"
  by (induction n) (auto simp: less_Suc_eq filter_empty_conv)

lemma visible_count:
  assumes "0 \<le> current_selection st" "current_selection st < int (length (tabs st))"
  shows "length (filter Not (hidden_flags st)) = 1"
proof -
  let ?k = "nat (current_selection st)"
  have k: "?k < length (tabs st)" using assms by simp
  have "filter (\<lambda>i. \<not> hidden st (int i)) [0..<length (tabs st)]
        = filter (\<lambda>i. i = ?k) [0..<length (tabs st)]"
    using assms by (intro filter_cong) (auto simp: hidden_def)
  then show ?thesis
    using filter_eq_upt [OF k] by (simp add: hidden_flags_def filter_map comp_def)
qed

lemma tabs_after_Select: "tabs (after_Select k st) = tabs st"
  by (simp add: after_Select_def Select_def)

lemma tabs_selections: "tabs (selections ks st) = tabs st"
  by (induction ks arbitrary: st) (simp_all add: tabs_after_Select)

lemma valid_after_Select:
  assumes "0 \<le> current_selection st" "current_selection st < int (length (tabs st))"
  shows "0 \<le> current_selection (after_Select k st) \<and>
         current_selection (after_Select k st) < int (length (tabs (after_Select k st)))"
  using assms by (simp add: after_Select_def Select_def)

lemma valid_selections:
  assumes "0 \<le> current_selection st" "current_selection st < int (length (tabs st))"
  shows "0 \<le> current_selection (selections ks st) \<and>
         current_selection (selections ks st) < int (length (tabs (selections ks st)))"
  using assms
proof (induction ks arbitrary: st)
  case Nil
  then show ?case by simp
next
  case (Cons k ks)
  from valid_after_Select [OF Cons.prems, of k] show ?case
    by (simp add: Cons.IH)
qed

text \<open>
  C1. For any tab collection and any valid index \<open>i\<close>, \<open>Select i\<close> succeeds, after it
  \<open>ActiveIndex\<close> is \<open>i\<close> and \<open>IsActive j\<close> holds exactly for \<open>j = i\<close>; the component
  starts with active index 0.
\<close>

theorem Select_valid_index:
  assumes "0 \<le> i" and "i < int (length (tabs st))"
  shows "\<exists>st'. Select i st = Inr st' \<and> ActiveIndex st' = i \<and> (\<forall>j. IsActive st' j \<longleftrightarrow> j = i) \<and>
           ActiveIndex (Demos sketch q_a img) = 0"
  using assms by (auto simp: Select_def ActiveIndex_def IsActive_def hidden_def Demos_def)

theorem Select_valid_index_witness:
  "\<exists>st'. Select 2 (Demos ''s'' ''q'' ''i'') = Inr st' \<and> ActiveIndex st' = 2 \<and>
     IsActive st' 2 \<and> \<not> IsActive st' 0 \<and> ActiveIndex (Demos ''s'' ''q'' ''i'') = 0"
  using Select_valid_index [of 2 "Demos ''s'' ''q'' ''i''" "''s''" "''q''" "''i''"]
  by (auto simp: Demos_def)

text \<open>
  C2. For an index below 0 or at least the number of entries, \<open>Select\<close> fails with
  \<open>OutOfRange\<close>, and the component's state, so its active index, is what it was.
\<close>

theorem Select_out_of_range:
  assumes "index < 0 \<or> int (length (tabs st)) \<le> index"
  shows "Select index st = Inl OutOfRange \<and> after_Select index st = st \<and>
         ActiveIndex (after_Select index st) = ActiveIndex st"
  using assms by (auto simp: Select_def after_Select_def)

theorem Select_out_of_range_witness:
  "Select 5 (after_Select 2 (Demos ''s'' ''q'' ''i'')) = Inl OutOfRange \<and>
   ActiveIndex (after_Select 5 (after_Select 2 (Demos ''s'' ''q'' ''i''))) = 2 \<and>
   Select (- 1) (Demos ''s'' ''q'' ''i'') = Inl OutOfRange"
  using Select_out_of_range [of 5 "after_Select 2 (Demos ''s'' ''q'' ''i'')"]
    Select_out_of_range [of "- 1" "Demos ''s'' ''q'' ''i''"]
  by (simp add: Demos_def after_Select_def Select_def ActiveIndex_def)

text \<open>
  C9. In every state \<open>Demos\<close> reaches from its initial state by any sequence of
  selections (accepted or rejected), the selected index is a valid index of \<open>tabs\<close>,
  the indices \<open>j\<close> with \<open>IsActive j\<close> are exactly that one index, and exactly one
  entry is rendered without the class \<open>hidden\<close>.
\<close>

theorem one_tab_selected:
  fixes ks :: "int list" and sketch q_a img :: string
  defines "st \<equiv> selections ks (Demos sketch q_a img)"
  shows "{j. IsActive st j} = {ActiveIndex st} \<and>
         0 \<le> ActiveIndex st \<and> ActiveIndex st < int (length (tabs st)) \<and>
         length (filter Not (hidden_flags st)) = 1"
proof -
  have init: "0 \<le> current_selection (Demos sketch q_a img)"
    "current_selection (Demos sketch q_a img) < int (length (tabs (Demos sketch q_a img)))"
    by (simp_all add: Demos_def)
  have v: "0 \<le> current_selection st \<and> current_selection st < int (length (tabs st))"
    unfolding st_def by (rule valid_selections [OF init])
  have "{j. IsActive st j} = {ActiveIndex st}"
    by (auto simp: IsActive_def hidden_def ActiveIndex_def)
  with v visible_count [of st] show ?thesis
    by (simp add: ActiveIndex_def)
qed


section \<open>Lemmas on pages\<close>

lemma removeAll_filter: "removeAll x xs = filter (\<lambda>y. y \<noteq> x) xs"
  by (induction xs) auto

lemma release_length: "length (mqls (release p x)) = length (mqls p)"
  by (cases x) (simp add: release_def)

lemma release_nth:
  "a < length (mqls p) \<Longrightarrow>
   mqls (release p (k, b, l)) ! a =
     (if b = a then removeEventListener l (mqls p ! a) else mqls p ! a)"
  by (simp add: release_def nth_list_update)

lemma assign_keys: "key \<in> fst ` set s \<Longrightarrow> map fst (assign s key v) = map fst s"
  by (induction s key v rule: assign.induct) auto

lemma map_of_assign: "map_of (assign s key v) = (map_of s)(key \<mapsto> v)"
  by (induction s key v rule: assign.induct) auto

lemma release_frame:
  "listeners (release p x) = listeners p \<and> store (release p x) = store p \<and>
   on_destroy (release p x) = on_destroy p"
  by (cases x) (simp add: release_def)

lemma foldl_release_frame:
  "listeners (foldl release p ls) = listeners p \<and> store (foldl release p ls) = store p \<and>
   on_destroy (foldl release p ls) = on_destroy p \<and>
   length (mqls (foldl release p ls)) = length (mqls p)"
  by (induction ls arbitrary: p) (simp_all add: release_length release_frame)

lemma foldl_release_nth:
  "a < length (mqls p) \<Longrightarrow>
   mqls (foldl release p ls) ! a =
     (mqls p ! a)\<lparr>change_listeners :=
        filter (\<lambda>l. (a, l) \<notin> snd ` set ls) (change_listeners (mqls p ! a))\<rparr>"
proof (induction ls arbitrary: p)
  case Nil
  then show ?case by simp
next
  case (Cons x ls)
  obtain k b l where x: "x = (k, b, l)" by (cases x)
  let ?cl = "change_listeners (mqls p ! a)"
  have len: "a < length (mqls (release p x))"
    using Cons.prems by (simp add: release_length)
  have step: "mqls (foldl release p (x # ls)) ! a =
      (mqls (release p x) ! a)\<lparr>change_listeners :=
         filter (\<lambda>l. (a, l) \<notin> snd ` set ls) (change_listeners (mqls (release p x) ! a))\<rparr>"
    using Cons.IH [OF len] by simp
  show ?case
  proof (cases "b = a")
    case True
    have "filter (\<lambda>y. (a, y) \<notin> snd ` set ls) (filter (\<lambda>y. y \<noteq> l) ?cl) =
          filter (\<lambda>y. (a, y) \<notin> snd ` set (x # ls)) ?cl"
      unfolding filter_filter by (rule filter_cong) (auto simp: x True)
    with step release_nth [OF Cons.prems, of k b l] show ?thesis
      by (simp add: x True removeEventListener_def removeAll_filter)
  next
    case False
    have "filter (\<lambda>y. (a, y) \<notin> snd ` set ls) ?cl =
          filter (\<lambda>y. (a, y) \<notin> snd ` set (x # ls)) ?cl"
      by (rule filter_cong) (use False in \<open>auto simp: x\<close>)
    with step release_nth [OF Cons.prems, of k b l] show ?thesis
      by (simp add: x False)
  qed
qed

lemma register_pair:
  "register w p (key, q) =
     p\<lparr>mqls := mqls p @ [\<lparr>media = q, matches = w q, change_listeners = [key]\<rparr>],
       listeners := assign (listeners p) key (length (mqls p), key)\<rparr>"
  by (simp add: register_def matchMedia_def addEventListener_def)

lemma media_query_None:
  "media_query None =
     \<lparr>mqls = [], listeners = [], store = writable default_state, on_destroy = False\<rparr>"
  by (simp add: media_query_def)

lemma media_query_Some:
  "media_query (Some w) =
     \<lparr>mqls = map (\<lambda>(k, q). \<lparr>media = q, matches = w q, change_listeners = [k]\<rparr>) sizes,
      listeners = [(''sm'', 0, ''sm''), (''md'', 1, ''md''), (''lg'', 2, ''lg''),
                   (''xl'', 3, ''xl''), (''2xl'', 4, ''2xl'')],
      store = writable default_state, on_destroy = True\<rparr>"
  by (simp add: media_query_def sizes_def register_pair)

lemma page_ok_media_query: "page_ok (media_query win)"
proof (cases win)
  case None
  then show ?thesis
    by (simp add: page_ok_def media_query_None writable_def default_state_def sizes_def)
next
  case (Some w)
  let ?p = "media_query (Some w)"
  have "\<forall>a<length (mqls ?p). length (change_listeners (mqls ?p ! a)) \<le> 1 \<and>
        (\<forall>l\<in>set (change_listeners (mqls ?p ! a)).
           map_of sizes l = Some (media (mqls ?p ! a)) \<and>
           map_of (listeners ?p) l = Some (a, l))"
    apply (simp add: media_query_Some sizes_def)
    apply (simp add: All_less_Suc2)
    done
  moreover have "map fst (current (store ?p)) = map fst sizes" "on_destroy ?p"
    by (simp_all add: media_query_Some writable_def default_state_def sizes_def)
  ultimately show ?thesis
    unfolding Some page_ok_def by blast
qed

lemma page_ok_keys: "page_ok p \<Longrightarrow> map fst (current (store p)) = map fst sizes"
  by (simp add: page_ok_def)

lemma page_ok_listener:
  assumes "page_ok p" "a < length (mqls p)" "l \<in> set (change_listeners (mqls p ! a))"
  shows "map_of sizes l = Some (media (mqls p ! a))" "map_of (listeners p) l = Some (a, l)"
    "l \<in> fst ` set sizes"
proof -
  show q: "map_of sizes l = Some (media (mqls p ! a))"
    and "map_of (listeners p) l = Some (a, l)"
    using assms by (simp_all add: page_ok_def)
  from map_of_SomeD [OF q] show "l \<in> fst ` set sizes"
    by (rule image_eqI [rotated]) simp
qed

lemma page_ok_single:
  "page_ok p \<Longrightarrow> a < length (mqls p) \<Longrightarrow>
   change_listeners (mqls p ! a) = [] \<or> (\<exists>l. change_listeners (mqls p ! a) = [l])"
proof -
  assume "page_ok p" "a < length (mqls p)"
  then have "length (change_listeners (mqls p ! a)) \<le> 1"
    by (simp add: page_ok_def)
  then show ?thesis
    by (cases "change_listeners (mqls p ! a)") auto
qed

lemma change_listeners_flipped:
  "b < length (mqls p) \<Longrightarrow>
   change_listeners (mqls (flipped a m p) ! b) = change_listeners (mqls p ! b) \<and>
   media (mqls (flipped a m p) ! b) = media (mqls p ! b)"
  by (cases "a = b") (simp_all add: flipped_def)

lemma Change_quiet:
  assumes "a < length (mqls p)" "change_listeners (mqls p ! a) = []"
  shows "step eager p (Change a m) = Inr (flipped a m p)"
  using assms by (simp add: flipped_def)

lemma Change_fires:
  assumes "page_ok p" "a < length (mqls p)" "change_listeners (mqls p ! a) = [l]"
  shows "step eager p (Change a m) =
           Inr ((flipped a m p)\<lparr>store := update (\<lambda>s. assign s l m) (store p)\<rparr>)"
proof -
  have "map_of (listeners p) l = Some (a, l)"
    using page_ok_listener(2) [OF assms(1,2), of l] assms(3) by simp
  then have "onChange l (flipped a m p) =
               Inr ((flipped a m p)\<lparr>store := update (\<lambda>s. assign s l m) (store p)\<rparr>)"
    using assms(2) by (simp add: onChange_def flipped_def)
  then show ?thesis
    using assms(2,3) by (simp add: flipped_def)
qed

lemma page_ok_store:
  assumes "page_ok p" "map fst (current st) = map fst (current (store p))"
  shows "page_ok (p\<lparr>store := st\<rparr>)"
  using assms by (simp add: page_ok_def)

lemma page_ok_flipped: "page_ok p \<Longrightarrow> page_ok (flipped a m p)"
proof -
  assume ok: "page_ok p"
  have st: "store (flipped a m p) = store p" "listeners (flipped a m p) = listeners p"
    "on_destroy (flipped a m p) = on_destroy p" "length (mqls (flipped a m p)) = length (mqls p)"
    by (simp_all add: flipped_def)
  have "mqls p = [] \<Longrightarrow> mqls (flipped a m p) = []"
    by (simp add: flipped_def)
  with ok show ?thesis
    unfolding page_ok_def st by (auto simp: change_listeners_flipped)
qed

lemma page_ok_Teardown: "page_ok p \<Longrightarrow> page_ok (Teardown p)"
proof -
  assume ok: "page_ok p"
  let ?q = "foldl release p (listeners p)"
  have fr: "listeners ?q = listeners p" "store ?q = store p" "on_destroy ?q = on_destroy p"
    "length (mqls ?q) = length (mqls p)"
    using foldl_release_frame [of p "listeners p"] by simp_all
  have "mqls p = [] \<Longrightarrow> mqls ?q = []"
    using fr(4) by simp
  with ok have "page_ok ?q"
    unfolding page_ok_def fr
    by (auto simp: foldl_release_nth intro: le_trans [OF length_filter_le])
  with ok show ?thesis
    by (simp add: Teardown_def destroy_callback_def)
qed

lemma step_page_ok:
  assumes "page_ok p"
  shows "\<exists>p'. step eager p ev = Inr p' \<and> page_ok p'"
proof (cases ev)
  case Subscribe
  then show ?thesis
    using assms by (simp add: page_ok_store subscribe2_def Let_def)
next
  case (Unsubscribe h)
  then show ?thesis
    using assms by (simp add: page_ok_store unsubscribe_def)
next
  case (Change a m)
  show ?thesis
  proof (cases "a < length (mqls p)")
    case False
    then show ?thesis using assms Change by simp
  next
    case True
    from page_ok_single [OF assms True] show ?thesis
    proof
      assume "change_listeners (mqls p ! a) = []"
      then show ?thesis
        using Change Change_quiet [OF True] page_ok_flipped [OF assms] by simp
    next
      assume "\<exists>l. change_listeners (mqls p ! a) = [l]"
      then obtain l where l: "change_listeners (mqls p ! a) = [l]" ..
      have "l \<in> fst ` set sizes"
        using page_ok_listener(3) [OF assms True, of l] l by simp
      then have "l \<in> fst ` set (current (store p))"
        using page_ok_keys [OF assms] by (metis set_map)
      then have "map fst (current (update (\<lambda>s. assign s l m) (store p))) =
                 map fst (current (store (flipped a m p)))"
        by (simp add: update_def Let_def assign_keys flipped_def)
      from page_ok_store [OF page_ok_flipped [OF assms] this] show ?thesis
        using Change Change_fires [OF assms True l] by simp
    qed
  qed
next
  case Destroy
  then show ?thesis
    using assms by (simp add: page_ok_Teardown)
qed

lemma run_page_ok:
  "page_ok p \<Longrightarrow> \<exists>p'. run eager evs p = Inr p' \<and> page_ok p'"
proof (induction evs arbitrary: p)
  case Nil
  then show ?case by simp
next
  case (Cons ev evs)
  from step_page_ok [OF Cons.prems, of eager ev]
  obtain q where q: "step eager p ev = Inr q" "page_ok q" by blast
  from Cons.IH [OF q(2)] q(1) show ?case by simp
qed


section \<open>Properties of the breakpoint store\<close>

lemma step_not_Change:
  assumes "\<not> is_Change ev"
  shows "\<exists>p'. step eager p ev = Inr p' \<and> current (store p') = current (store p)"
proof (cases ev)
  case Destroy
  then show ?thesis
    using foldl_release_frame [of p "listeners p"] by (simp add: Teardown_def destroy_callback_def)
qed (use assms in \<open>simp_all add: subscribe2_def unsubscribe_def Let_def\<close>)

lemma run_no_Change:
  assumes "\<forall>a m. Change a m \<notin> set evs"
  shows "\<exists>p'. run eager evs p = Inr p' \<and> current (store p') = current (store p)"
  using assms
proof (induction evs arbitrary: p)
  case Nil
  then show ?case by simp
next
  case (Cons ev evs)
  have "\<not> is_Change ev"
    using Cons.prems by (cases ev) auto
  from step_not_Change [OF this, of eager p]
  obtain q where q: "step eager p ev = Inr q" "current (store q) = current (store p)"
    by blast
  have "\<forall>a m. Change a m \<notin> set evs"
    using Cons.prems by simp
  from Cons.IH [OF this, of q] q show ?case by simp
qed

lemma current_media_query: "current (store (media_query win)) = default_state"
  by (cases win) (simp_all add: media_query_None media_query_Some writable_def)

lemma default_state_sizes: "default_state = map (\<lambda>(k, q). (k, False)) sizes"
  by (simp add: default_state_def sizes_def)

text \<open>
  C3. Until a \<open>change\<close> event has been delivered, the store's state is \<open>_default\<close>,
  which maps every key of \<open>sizes\<close> to false: that is so in a window too, whatever its
  viewport matches, since \<open>media_query\<close> reads no match value when it sets up.
\<close>

theorem cold_start_all_false:
  assumes "\<forall>a m. Change a m \<notin> set evs"
  shows "\<exists>p. run eager evs (media_query win) = Inr p \<and>
           CurrentState p = default_state \<and>
           CurrentState p = map (\<lambda>(k, q). (k, False)) sizes"
  using run_no_Change [OF assms, of eager "media_query win"]
  by (auto simp: CurrentState_def current_media_query default_state_sizes [symmetric])

theorem cold_start_all_false_witness:
  "\<exists>p. run True [Subscribe, Destroy] (media_query (Some (\<lambda>q. True))) = Inr p \<and>
     CurrentState p =
       [(''sm'', False), (''md'', False), (''lg'', False), (''xl'', False), (''2xl'', False)]"
  using cold_start_all_false [of "[Subscribe, Destroy]" True "Some (\<lambda>q. True)"]
  by (simp add: default_state_def)

lemma step_no_mqls:
  assumes "mqls p = []" "listeners p = []"
  shows "\<exists>p'. step eager p ev = Inr p' \<and> mqls p' = [] \<and> listeners p' = [] \<and>
           current (store p') = current (store p)"
  using assms
  by (cases ev) (simp_all add: subscribe2_def unsubscribe_def Let_def Teardown_def destroy_callback_def)

lemma run_no_mqls:
  assumes "mqls p = []" "listeners p = []"
  shows "\<exists>p'. run eager evs p = Inr p' \<and> mqls p' = [] \<and> listeners p' = [] \<and>
           current (store p') = current (store p)"
  using assms
proof (induction evs arbitrary: p)
  case Nil
  then show ?case by simp
next
  case (Cons ev evs)
  from step_no_mqls [OF Cons.prems, of eager ev]
  obtain q where q: "step eager p ev = Inr q" "mqls q = []" "listeners q = []"
    "current (store q) = current (store p)"
    by blast
  from Cons.IH [OF q(2,3)] q(1,4) show ?case by simp
qed

text \<open>
  C4, as the code has it. In a host with no \<open>window\<close>, which offers no
  viewport-monitoring facility, \<open>media_query\<close> raises no error, creates no media query
  list and registers nothing, and whatever happens afterwards raises no error and
  leaves the store's state at all false.
\<close>

theorem no_window_all_false:
  "\<not> viewport_facility No_window \<and>
   media_query_in No_window = Inr (media_query None) \<and>
   (\<exists>p. run eager evs (media_query None) = Inr p \<and> mqls p = [] \<and> listeners p = [] \<and>
      CurrentState p = map (\<lambda>(k, q). (k, False)) sizes)"
  using run_no_mqls [of "media_query None" eager evs]
  by (auto simp: media_query_in_def CurrentState_def media_query_None writable_def
      default_state_sizes)

text \<open>
  C4 as stated, for every host without a viewport-monitoring facility, fails: a host
  whose \<open>window\<close> has no \<open>matchMedia\<close> offers none, and there \<open>media_query\<close> raises a
  TypeError instead of returning a store.
\<close>

theorem window_without_matchMedia_raises:
  "\<not> viewport_facility Window_without_matchMedia \<and>
   media_query_in Window_without_matchMedia = Inl TypeError"
  by (simp add: media_query_in_def)

text \<open>
  C8. In every state a page reaches, the keys of the store's state are \<open>sm\<close>, \<open>md\<close>,
  \<open>lg\<close>, \<open>xl\<close>, \<open>2xl\<close>, in this order: no event adds or removes a key, and none
  raises an error.
\<close>

theorem keys_fixed:
  "\<exists>p. run eager evs (media_query win) = Inr p \<and>
     map fst (CurrentState p) = [''sm'', ''md'', ''lg'', ''xl'', ''2xl'']"
proof -
  from run_page_ok [OF page_ok_media_query, of eager evs win]
  obtain p where p: "run eager evs (media_query win) = Inr p" "page_ok p" by blast
  from page_ok_keys [OF p(2)] have "map fst (CurrentState p) = map fst sizes"
    by (simp add: CurrentState_def)
  with p(1) show ?thesis by (simp add: sizes_def)
qed

text \<open>
  C5. When the host dispatches \<open>change\<close> to a media query list on which the listener
  of a key is registered, no error is raised, the store's state afterwards has that key
  at the list's new match value and every other key as before, in the same order, and
  exactly the subscribers of that moment are called, each once, with this new state.
\<close>

theorem change_notifies_subscribers:
  assumes "run eager evs (media_query win) = Inr p"
    and "a < length (mqls p)"
    and "key \<in> set (change_listeners (mqls p ! a))"
  shows "\<exists>p'. step eager p (Change a m) = Inr p' \<and>
           map_of sizes key = Some (media (mqls p ! a)) \<and>
           map_of (CurrentState p') = (map_of (CurrentState p))(key \<mapsto> m) \<and>
           map fst (CurrentState p') = map fst (CurrentState p) \<and>
           subscribers (store p') = subscribers (store p) \<and>
           calls (store p') =
             calls (store p) @ map (\<lambda>h. (h, CurrentState p')) (subscribers (store p))"
proof -
  from run_page_ok [OF page_ok_media_query, of eager evs win] assms(1)
  have ok: "page_ok p" by simp
  from page_ok_single [OF ok assms(2)] assms(3)
  have l: "change_listeners (mqls p ! a) = [key]" by auto
  have "key \<in> fst ` set (current (store p))"
    using page_ok_listener(3) [OF ok assms(2,3)] page_ok_keys [OF ok] by (metis set_map)
  then have "map fst (assign (current (store p)) key m) = map fst (current (store p))"
    by (rule assign_keys)
  then show ?thesis
    using Change_fires [OF ok assms(2) l, of eager m] page_ok_listener(1) [OF ok assms(2,3)]
    by (simp add: CurrentState_def update_def Let_def map_of_assign flipped_def)
qed

theorem change_notifies_subscribers_witness:
  "\<exists>p'. run False [Subscribe, Subscribe, Unsubscribe 0, Change 2 True]
           (media_query (Some (\<lambda>q. False))) = Inr p' \<and>
     CurrentState p' =
       [(''sm'', False), (''md'', False), (''lg'', True), (''xl'', False), (''2xl'', False)] \<and>
     calls (store p') =
       [(1, [(''sm'', False), (''md'', False), (''lg'', True), (''xl'', False),
             (''2xl'', False)])]"
proof -
  let ?p = "(media_query (Some (\<lambda>q. False)))\<lparr>store :=
              \<lparr>current = default_state, subscribers = [1], issued = 2, calls = []\<rparr>\<rparr>"
  have r: "run False [Subscribe, Subscribe, Unsubscribe 0] (media_query (Some (\<lambda>q. False))) =
             Inr ?p"
    by (simp add: media_query_Some writable_def subscribe2_def unsubscribe_def)
  have "2 < length (mqls ?p)" "''lg'' \<in> set (change_listeners (mqls ?p ! 2))"
    by (simp_all add: media_query_Some sizes_def)
  from change_notifies_subscribers [OF r this, of True] show ?thesis
    by (simp add: media_query_Some writable_def subscribe2_def unsubscribe_def sizes_def
        default_state_def CurrentState_def flipped_def onChange_def update_def Let_def)
qed

lemma quiet_replicate:
  "quiet p \<longleftrightarrow> map change_listeners (mqls p) = replicate (length (mqls p)) []"
proof -
  have "map change_listeners (mqls p) = replicate (length (mqls p)) [] \<longleftrightarrow>
        (\<forall>a<length (mqls p). change_listeners (mqls p ! a) = [])"
    by (subst list_eq_iff_nth_eq) simp
  then show ?thesis by (simp add: quiet_def)
qed

lemma quiet_Teardown:
  assumes "page_ok p"
  shows "quiet (Teardown p)"
proof (cases "on_destroy p")
  case False
  with assms have "mqls p = []" by (simp add: page_ok_def)
  with False show ?thesis by (simp add: Teardown_def destroy_callback_def quiet_def)
next
  case True
  have "change_listeners (mqls (foldl release p (listeners p)) ! a) = []"
    if a: "a < length (mqls p)" for a
  proof -
    have "(a, l) \<in> snd ` set (listeners p)" if "l \<in> set (change_listeners (mqls p ! a))" for l
      using map_of_SomeD [OF page_ok_listener(2) [OF assms a that]]
      by (rule image_eqI [rotated]) simp
    then show ?thesis
      by (simp add: foldl_release_nth [OF a] filter_empty_conv)
  qed
  with True show ?thesis
    using foldl_release_frame [of p "listeners p"] by (simp add: Teardown_def destroy_callback_def quiet_def)
qed

lemma release_quiet:
  assumes "quiet p"
  shows "release p x = p"
proof -
  obtain k b l where x: "x = (k, b, l)" by (cases x)
  have "removeEventListener l (mqls p ! b) = mqls p ! b" if "b < length (mqls p)"
    using assms that by (simp add: quiet_def removeEventListener_def)
  then show ?thesis
    by (simp add: x release_def)
qed

lemma Teardown_quiet: "quiet p \<Longrightarrow> Teardown p = p"
proof -
  assume q: "quiet p"
  have "foldl release p ls = p" for ls
    by (induction ls) (simp_all add: release_quiet [OF q])
  then show ?thesis by (simp add: Teardown_def destroy_callback_def)
qed

lemma quiet_flipped: "quiet p \<Longrightarrow> quiet (flipped a m p)"
proof -
  assume q: "quiet p"
  have "length (mqls (flipped a m p)) = length (mqls p)"
    by (simp add: flipped_def)
  with q show ?thesis
    by (simp add: quiet_def change_listeners_flipped)
qed

lemma step_quiet:
  assumes "quiet p"
  shows "\<exists>p'. step eager p ev = Inr p' \<and> quiet p' \<and> length (mqls p') = length (mqls p) \<and>
           current (store p') = current (store p)"
proof (cases ev)
  case (Change a m)
  show ?thesis
  proof (cases "a < length (mqls p)")
    case True
    with assms have "change_listeners (mqls p ! a) = []" by (simp add: quiet_def)
    from Change_quiet [OF True this, of eager m] quiet_flipped [OF assms, of a m]
    show ?thesis by (simp add: Change flipped_def)
  next
    case False
    with assms Change show ?thesis by simp
  qed
next
  case Destroy
  with assms show ?thesis by (simp add: Teardown_quiet)
qed (use assms in \<open>simp_all add: quiet_def subscribe2_def unsubscribe_def Let_def\<close>)

lemma run_quiet:
  assumes "quiet p"
  shows "\<exists>p'. run eager evs p = Inr p' \<and> quiet p' \<and> length (mqls p') = length (mqls p) \<and>
           current (store p') = current (store p)"
  using assms
proof (induction evs arbitrary: p)
  case Nil
  then show ?case by simp
next
  case (Cons ev evs)
  from step_quiet [OF Cons.prems, of eager ev]
  obtain q where q: "step eager p ev = Inr q" "quiet q" "length (mqls q) = length (mqls p)"
    "current (store q) = current (store p)"
    by blast
  from Cons.IH [OF q(2)] q(1,3,4) show ?case by simp
qed

lemma Change_quiet_store:
  assumes "quiet p"
  shows "\<exists>p'. step eager p (Change a m) = Inr p' \<and> store p' = store p"
proof (cases "a < length (mqls p)")
  case True
  with assms have "change_listeners (mqls p ! a) = []" by (simp add: quiet_def)
  from Change_quiet [OF True this, of eager m] show ?thesis by (simp add: flipped_def)
next
  case False
  then show ?thesis by simp
qed

text \<open>
  C6. \<open>media_query\<close> in a window registers one listener per key of \<open>sizes\<close>. From any
  state a page has reached, \<open>Teardown\<close> leaves no listener on any media query list; a
  second \<open>Teardown\<close> changes nothing; and whatever happens after the first one raises no
  error, registers no listener again and leaves the store's state as it was, a
  \<open>change\<close> event leaving the whole store, its log of calls included, untouched.
\<close>

theorem Teardown_releases_listeners:
  "map change_listeners (mqls (media_query (Some w))) = map (\<lambda>(k, q). [k]) sizes \<and>
   (\<exists>p. run eager evs (media_query win) = Inr p \<and>
      map change_listeners (mqls (Teardown p)) = replicate (length (mqls p)) [] \<and>
      Teardown (Teardown p) = Teardown p \<and>
      (\<exists>q. run eager evs' (Teardown p) = Inr q \<and>
         map change_listeners (mqls q) = replicate (length (mqls p)) [] \<and>
         CurrentState q = CurrentState p \<and>
         (\<exists>q'. step eager q (Change a m) = Inr q' \<and> store q' = store q)))"
proof -
  from run_page_ok [OF page_ok_media_query, of eager evs win]
  obtain p where p: "run eager evs (media_query win) = Inr p" "page_ok p" by blast
  have t: "quiet (Teardown p)" by (rule quiet_Teardown [OF p(2)])
  have len: "length (mqls (Teardown p)) = length (mqls p)"
    and st: "store (Teardown p) = store p"
    using foldl_release_frame [of p "listeners p"] by (simp_all add: Teardown_def destroy_callback_def)
  from run_quiet [OF t, of eager evs']
  obtain q where q: "run eager evs' (Teardown p) = Inr q" "quiet q"
    "length (mqls q) = length (mqls (Teardown p))"
    "current (store q) = current (store (Teardown p))"
    by blast
  have "map change_listeners (mqls (Teardown p)) = replicate (length (mqls p)) []"
    using t len by (simp add: quiet_replicate)
  moreover have "map change_listeners (mqls q) = replicate (length (mqls p)) []"
    using q(2,3) len by (simp add: quiet_replicate)
  moreover have "CurrentState q = CurrentState p"
    using q(4) st by (simp add: CurrentState_def)
  moreover have "map change_listeners (mqls (media_query (Some w))) = map (\<lambda>(k, q). [k]) sizes"
    by (simp add: media_query_Some sizes_def)
  ultimately show ?thesis
    using p(1) q(1) Teardown_quiet [OF t] Change_quiet_store [OF q(2), of eager a m]
    by auto
qed

theorem Teardown_releases_listeners_witness:
  "\<exists>p. run True [Subscribe, Change 2 True] (media_query (Some (\<lambda>q. False))) = Inr p \<and>
     map change_listeners (mqls p) = [[''sm''], [''md''], [''lg''], [''xl''], [''2xl'']] \<and>
     map change_listeners (mqls (Teardown p)) = [[], [], [], [], []] \<and>
     Teardown (Teardown p) = Teardown p \<and>
     (\<exists>q. run True [Destroy, Change 3 True] (Teardown p) = Inr q \<and>
        map matches (mqls q) = [False, False, True, True, False] \<and>
        CurrentState q =
          [(''sm'', False), (''md'', False), (''lg'', True), (''xl'', False),
           (''2xl'', False)] \<and>
        calls (store q) = calls (store p))"
  using Teardown_releases_listeners [of "\<lambda>q. False" True "[Subscribe, Change 2 True]"
      "Some (\<lambda>q. False)" "[Destroy, Change 3 True]" 3 True]
  by (simp add: media_query_Some writable_def subscribe2_def sizes_def default_state_def
      flipped_def onChange_def update_def Let_def Teardown_def destroy_callback_def release_def
      removeEventListener_def CurrentState_def)

lemma calls_of_update:
  assumes "h \<notin> set (subscribers (store p))"
  shows "calls_of h (p\<lparr>store := update f (store p)\<rparr>) = calls_of h p"
proof -
  have "filter (\<lambda>c. fst c = h) (map (\<lambda>i. (i, v)) (subscribers (store p))) = []" for v
    using assms by (auto simp: filter_empty_conv)
  then show ?thesis
    by (simp add: calls_of_def update_def Let_def)
qed

lemma onChange_store:
  assumes "onChange l p = Inr p'"
  shows "\<exists>f. p' = p\<lparr>store := update f (store p)\<rparr>"
  using assms by (auto simp: onChange_def split: option.splits if_splits)

lemma dispatch_subscribers:
  assumes "dispatch ls p = Inr p'"
  shows "issued (store p') = issued (store p) \<and>
         subscribers (store p') = subscribers (store p) \<and>
         (h \<notin> set (subscribers (store p)) \<longrightarrow> calls_of h p' = calls_of h p)"
  using assms
proof (induction ls arbitrary: p)
  case Nil
  then show ?case by simp
next
  case (Cons l ls)
  from Cons.prems obtain q where q: "onChange l p = Inr q" "dispatch ls q = Inr p'"
    by (auto split: sum.splits)
  from onChange_store [OF q(1)] obtain f where f: "q = p\<lparr>store := update f (store p)\<rparr>" ..
  have s: "issued (store q) = issued (store p)" "subscribers (store q) = subscribers (store p)"
    by (simp_all add: f update_def Let_def)
  have "h \<notin> set (subscribers (store p)) \<Longrightarrow> calls_of h q = calls_of h p"
    unfolding f by (rule calls_of_update)
  with Cons.IH [OF q(2)] s show ?case by simp
qed

lemma step_released:
  assumes "step eager p ev = Inr p'" "released h p"
  shows "released h p' \<and> calls_of h p' = calls_of h p"
proof (cases ev)
  case Subscribe
  with assms show ?thesis
    by (auto simp: released_def calls_of_def subscribe2_def Let_def)
next
  case (Unsubscribe k)
  with assms show ?thesis
    by (auto simp: released_def calls_of_def unsubscribe_def)
next
  case (Change a m)
  show ?thesis
  proof (cases "a < length (mqls p)")
    case True
    with assms(1) Change
    have "dispatch (change_listeners (mqls p ! a)) (flipped a m p) = Inr p'" by simp
    from dispatch_subscribers [OF this, of h] assms(2) show ?thesis
      by (simp add: released_def flipped_def calls_of_def)
  next
    case False
    with assms Change show ?thesis by simp
  qed
next
  case Destroy
  with assms show ?thesis
    using foldl_release_frame [of p "listeners p"]
    by (auto simp: released_def calls_of_def Teardown_def destroy_callback_def)
qed

lemma run_released:
  assumes "run eager evs p = Inr p'" "released h p"
  shows "released h p' \<and> calls_of h p' = calls_of h p"
  using assms
proof (induction evs arbitrary: p)
  case Nil
  then show ?case by simp
next
  case (Cons ev evs)
  from Cons.prems(1) obtain q where q: "step eager p ev = Inr q" "run eager evs q = Inr p'"
    by (auto split: sum.splits)
  from step_released [OF q(1) Cons.prems(2)] Cons.IH [OF q(2)] show ?case by simp
qed

lemma Header_released: "released (fst (Header eager p)) (snd (Header eager p))"
  by (simp add: Header_def subscribe2_def unsubscribe_def released_def Let_def)

text \<open>
  After \<open>Header\<close> has rendered, nothing that happens calls the callback it subscribed
  with.
\<close>

lemma Header_callback_silent:
  assumes "run eager evs (snd (Header eager p)) = Inr r"
  shows "calls_of (fst (Header eager p)) r = calls_of (fst (Header eager p)) (snd (Header eager p))"
  using run_released [OF assms Header_released] by simp

lemma step_issued:
  assumes "step eager p ev = Inr p'"
  shows "issued (store p) \<le> issued (store p')"
proof (cases ev)
  case (Change a m)
  show ?thesis
  proof (cases "a < length (mqls p)")
    case True
    with assms Change
    have "dispatch (change_listeners (mqls p ! a)) (flipped a m p) = Inr p'" by simp
    from dispatch_subscribers [OF this] show ?thesis by (simp add: flipped_def)
  next
    case False
    with assms Change show ?thesis by simp
  qed
next
  case Destroy
  with assms show ?thesis
    using foldl_release_frame [of p "listeners p"] by (auto simp: Teardown_def destroy_callback_def)
qed (use assms in \<open>auto simp: subscribe2_def unsubscribe_def Let_def\<close>)

lemma run_issued:
  assumes "run eager evs p = Inr p'"
  shows "issued (store p) \<le> issued (store p')"
  using assms
proof (induction evs arbitrary: p)
  case Nil
  then show ?case by simp
next
  case (Cons ev evs)
  from Cons.prems obtain q where q: "step eager p ev = Inr q" "run eager evs q = Inr p'"
    by (auto split: sum.splits)
  from step_issued [OF q(1)] Cons.IH [OF q(2)] show ?case by simp
qed

text \<open>
  C7. Take a page in any state it has reached and subscribe: the handle is \<open>h\<close>. Let
  anything happen, then invoke \<open>h\<close>. Whatever happens after that, breakpoint flips
  included, raises no error and leaves the list of calls of that subscription's
  callback as it was when the handle was invoked.
\<close>

theorem unsubscribed_never_called:
  fixes eager :: bool and evs evs1 evs2 :: "event list" and win :: "window option"
  shows "\<exists>p h st q r.
           run eager evs (media_query win) = Inr p \<and>
           subscribe2 eager (store p) = (h, st) \<and>
           run eager evs1 (p\<lparr>store := st\<rparr>) = Inr q \<and>
           run eager evs2 (q\<lparr>store := unsubscribe h (store q)\<rparr>) = Inr r \<and>
           calls_of h r = calls_of h q"
proof -
  from run_page_ok [OF page_ok_media_query, of eager evs win]
  obtain p where p: "run eager evs (media_query win) = Inr p" "page_ok p" by blast
  obtain h st where s: "subscribe2 eager (store p) = (h, st)" by (cases "subscribe2 eager (store p)")
  have ok1: "page_ok (p\<lparr>store := st\<rparr>)"
    using step_page_ok [OF p(2), of eager Subscribe] s by simp
  from run_page_ok [OF ok1, of eager evs1]
  obtain q where q: "run eager evs1 (p\<lparr>store := st\<rparr>) = Inr q" "page_ok q" by blast
  let ?u = "q\<lparr>store := unsubscribe h (store q)\<rparr>"
  have ok2: "page_ok ?u"
    using step_page_ok [OF q(2), of eager "Unsubscribe h"] by simp
  from run_page_ok [OF ok2, of eager evs2]
  obtain r where r: "run eager evs2 ?u = Inr r" by blast
  have "h < issued st"
    using s by (auto simp: subscribe2_def Let_def)
  with run_issued [OF q(1)] have "h < issued (store q)" by simp
  then have "released h ?u"
    by (simp add: released_def unsubscribe_def)
  from run_released [OF r this] have "calls_of h r = calls_of h q"
    by (simp add: calls_of_def unsubscribe_def)
  with p(1) s q(1) r show ?thesis by blast
qed

theorem unsubscribed_never_called_witness:
  "\<exists>p h st q r.
     run False [] (media_query (Some (\<lambda>q. False))) = Inr p \<and>
     subscribe2 False (store p) = (h, st) \<and>
     run False [Change 2 True] (p\<lparr>store := st\<rparr>) = Inr q \<and>
     run False [Change 2 False, Change 4 True, Subscribe]
       (q\<lparr>store := unsubscribe h (store q)\<rparr>) = Inr r \<and>
     calls_of h q = [[(''sm'', False), (''md'', False), (''lg'', True), (''xl'', False),
                      (''2xl'', False)]] \<and>
     calls_of h r = calls_of h q \<and>
     CurrentState r = [(''sm'', False), (''md'', False), (''lg'', False), (''xl'', False),
                       (''2xl'', True)]"
  using unsubscribed_never_called [of False "[]" "Some (\<lambda>q. False)" "[Change 2 True]"
      "[Change 2 False, Change 4 True, Subscribe]"]
  by (simp add: media_query_Some writable_def subscribe2_def unsubscribe_def sizes_def
      default_state_def flipped_def onChange_def update_def Let_def calls_of_def
      CurrentState_def)

lemma step_no_mqls_calls:
  assumes "mqls p = []" "listeners p = []" "h < issued (store p)"
  shows "\<exists>p'. step eager p ev = Inr p' \<and> mqls p' = [] \<and> listeners p' = [] \<and>
           h < issued (store p') \<and> calls_of h p' = calls_of h p"
  using assms
  by (cases ev) (simp_all add: subscribe2_def unsubscribe_def Let_def Teardown_def destroy_callback_def calls_of_def)

lemma run_no_mqls_calls:
  assumes "mqls p = []" "listeners p = []" "h < issued (store p)"
  shows "\<exists>p'. run eager evs p = Inr p' \<and> calls_of h p' = calls_of h p"
  using assms
proof (induction evs arbitrary: p)
  case Nil
  then show ?case by simp
next
  case (Cons ev evs)
  from step_no_mqls_calls [OF Cons.prems, of eager ev]
  obtain q where q: "step eager p ev = Inr q" "mqls q = []" "listeners q = []"
    "h < issued (store q)" "calls_of h q = calls_of h p"
    by blast
  from Cons.IH [OF q(2,3,4)] q(1,5) show ?case by simp
qed

text \<open>
  What a subscriber sees where \<open>window\<close> is undefined rests on \<open>writable\<close> alone: its
  callback is called once, with the all-false state, if \<open>subscribe\<close> notifies at
  registration, and never otherwise, since no breakpoint change reaches the store.
\<close>

lemma subscriber_without_window:
  "\<exists>h st q. subscribe2 eager (store (media_query None)) = (h, st) \<and>
     run eager evs ((media_query None)\<lparr>store := st\<rparr>) = Inr q \<and>
     calls_of h q = (if eager then [default_state] else [])"
proof -
  let ?st = "snd (subscribe2 eager (store (media_query None)))"
  let ?p = "(media_query None)\<lparr>store := ?st\<rparr>"
  have s: "subscribe2 eager (store (media_query None)) = (0, ?st)"
    by (simp add: subscribe2_def media_query_None writable_def)
  have "mqls ?p = []" "listeners ?p = []" "0 < issued (store ?p)"
    by (simp_all add: media_query_None subscribe2_def writable_def)
  from run_no_mqls_calls [OF this, of eager evs]
  obtain q where q: "run eager evs ?p = Inr q" "calls_of 0 q = calls_of 0 ?p" by blast
  have "calls_of 0 ?p = (if eager then [default_state] else [])"
    by (simp add: calls_of_def media_query_None subscribe2_def writable_def)
  with q(2) have "calls_of 0 q = (if eager then [default_state] else [])" by simp
  with s q(1) show ?thesis by blast
qed

end
